theory Spec2Isabelle
  imports Main "HOL-Library.Word"
begin

unbundle bit_operations_syntax

section \<open>Machine types and the limb buffer\<close>

text \<open>
  The source is C++ on an LP64 platform: \<^verbatim>\<open>uint64_t\<close>, \<^verbatim>\<open>size_t\<close> and
  \<^verbatim>\<open>long\<close> are 64 bits wide, \<^verbatim>\<open>int\<close> is 32 bits wide. Unsigned arithmetic
  wraps around; a conversion to a narrower integer type keeps the low bits.
\<close>

type_synonym limb = "64 word"
type_synonym size_t = "64 word"
type_synonym c_long = "64 word"
type_synonym c_int = "32 word"

text \<open>
  A bitset is a pointer to caller-owned limbs. The buffer is a list of limbs; a read or
  a write outside of it is undefined behaviour in the source and the fault
  \<open>OutOfBounds\<close> here. \<open>ScanPastLimb\<close> is the undefined behaviour of the bit scan
  on an area without a set bit.
\<close>

datatype fault = OutOfBounds | ScanPastLimb

definition load :: "limb list \<Rightarrow> size_t \<Rightarrow> fault + limb" where
  "load bits i = (if unat i < length bits then Inr (bits ! unat i) else Inl OutOfBounds)"

definition store :: "limb list \<Rightarrow> size_t \<Rightarrow> limb \<Rightarrow> fault + limb list" where
  "store bits i v = (if unat i < length bits then Inr (bits[unat i := v]) else Inl OutOfBounds)"

definition index_shift :: nat where
  "index_shift = 6"

definition LIMB_BITS :: size_t where
  "LIMB_BITS = 64"

text \<open>The sentinel: \<^verbatim>\<open>-1\<close> converted to \<^verbatim>\<open>size_t\<close>, the largest value of the type.\<close>

definition sentinel :: size_t where
  "sentinel = - 1"

section \<open>Creating limb patterns\<close>

definition limb_one_set_bit :: "size_t \<Rightarrow> limb" where
  "limb_one_set_bit n = push_bit (unat (n mod LIMB_BITS)) 1"

text \<open>
  The source applies the logical negation \<^verbatim>\<open>!\<close> to the shifted limb: the result is
  the truth value of "the limb is zero", converted to \<^verbatim>\<open>uint64_t\<close>.
\<close>

definition limb_one_zero_bit :: "size_t \<Rightarrow> limb" where
  "limb_one_zero_bit n = of_bool (push_bit (unat (n mod LIMB_BITS)) (1 :: limb) = 0)"

definition limb_lower_bits_down :: "size_t \<Rightarrow> limb" where
  "limb_lower_bits_down n = push_bit (unat (n mod LIMB_BITS)) 1 - 1"

section \<open>Bitset bit manipulation\<close>

text \<open>
  Every operation returns the buffer as it leaves it, next to its result: the source
  takes a pointer to non-constant limbs. \<open>bitset_in\<close> returns \<^verbatim>\<open>int\<close>: the 64-bit
  value of the conjunction is converted to 32 bits.
\<close>

definition bitset_in :: "limb list \<Rightarrow> size_t \<Rightarrow> fault + (c_int \<times> limb list)" where
  "bitset_in bits n =
     (case load bits (drop_bit index_shift n) of
        Inl e \<Rightarrow> Inl e
      | Inr w \<Rightarrow> Inr (ucast (w AND limb_one_set_bit n), bits))"

definition bitset_discard :: "limb list \<Rightarrow> size_t \<Rightarrow> fault + limb list" where
  "bitset_discard bits n =
     (case load bits (drop_bit index_shift n) of
        Inl e \<Rightarrow> Inl e
      | Inr w \<Rightarrow> store bits (drop_bit index_shift n) (w AND limb_one_zero_bit n))"

definition bitset_add :: "limb list \<Rightarrow> size_t \<Rightarrow> fault + limb list" where
  "bitset_add bits n =
     (case load bits (drop_bit index_shift n) of
        Inl e \<Rightarrow> Inl e
      | Inr w \<Rightarrow> store bits (drop_bit index_shift n) (w OR limb_one_set_bit n))"

text \<open>The truth value a C++ caller reads from an \<^verbatim>\<open>int\<close>: non-zero is true.\<close>

definition truthy :: "c_int \<Rightarrow> bool" where
  "truthy v = (v \<noteq> 0)"

section \<open>Bitset searching\<close>

text \<open>
  Modelled from the spec: \<^verbatim>\<open>mpn_scan1\<close> is a function of the GMP library, which is
  not part of the sources. The specification (4.3) describes the scan: it returns the
  index, within the word, of the least-significant set bit and is undefined on a word
  without a set bit; GMP documents it the same way (scan from a bit position for the
  next set bit, which is required to exist). The source calls it on the address of one
  local limb, so the area scanned is that limb; the scan starts at bit position
  \<open>start\<close>, and leaving the limb without a hit is the fault \<open>ScanPastLimb\<close>.
\<close>

definition mpn_scan1 :: "limb \<Rightarrow> nat \<Rightarrow> fault + 64 word" where
  "mpn_scan1 l start =
     (case find (\<lambda>k. bit l k) [start..<64] of
        None \<Rightarrow> Inl ScanPastLimb
      | Some k \<Rightarrow> Inr (of_nat k))"

definition bitset_first_in_limb :: "limb \<Rightarrow> fault + size_t" where
  "bitset_first_in_limb l = (if l = 0 then Inr (- 1) else mpn_scan1 l 0)"

definition bitset_first_in_limb_nonzero :: "limb \<Rightarrow> fault + c_long" where
  "bitset_first_in_limb_nonzero l = mpn_scan1 l 0"

text \<open>The \<^verbatim>\<open>for\<close> loop of \<open>bitset_next\<close> over the whole limbs, entered at limb \<open>i\<close>.\<close>

function bitset_next_loop :: "limb list \<Rightarrow> size_t \<Rightarrow> size_t \<Rightarrow> fault + (size_t \<times> limb list)" where
  "bitset_next_loop bits face_length i =
     (if i < face_length then
        (case load bits i of
           Inl e \<Rightarrow> Inl e
         | Inr c \<Rightarrow>
             if c \<noteq> 0 then
               (case load bits i of
                  Inl e \<Rightarrow> Inl e
                | Inr w \<Rightarrow>
                    (case bitset_first_in_limb_nonzero w of
                       Inl e \<Rightarrow> Inl e
                     | Inr r \<Rightarrow> Inr (push_bit index_shift i OR r, bits)))
             else bitset_next_loop bits face_length (i + 1))
      else Inr (- 1, bits))"
  by pat_completeness auto
termination
proof (relation "measure (\<lambda>(bits, face_length, i). unat face_length - unat i)")
  fix bits :: "limb list" and face_length i :: size_t
  assume "i < face_length"
  then have below: "unat i < unat face_length"
    by (simp add: word_less_nat_alt)
  have "unat face_length < 2 ^ 64"
    using unsigned_less [of face_length] by simp
  with below have "unat i + 1 < 2 ^ 64"
    by linarith
  then have "unat (i + 1) = Suc (unat i)"
    by (simp add: unat_word_ariths)
  with below
  show "((bits, face_length, i + 1), (bits, face_length, i))
          \<in> measure (\<lambda>(bits, face_length, i). unat face_length - unat i)"
    by simp
qed simp

declare bitset_next_loop.simps [simp del]

definition bitset_next :: "limb list \<Rightarrow> size_t \<Rightarrow> size_t \<Rightarrow> fault + (size_t \<times> limb list)" where
  "bitset_next bits face_length n =
     (if n \<ge> face_length * LIMB_BITS then Inr (- 1, bits)
      else
        (let i = drop_bit index_shift n in
         case load bits i of
           Inl e \<Rightarrow> Inl e
         | Inr w \<Rightarrow>
             (let l = w AND NOT (limb_lower_bits_down n) in
              case bitset_first_in_limb l of
                Inl e \<Rightarrow> Inl e
              | Inr ret \<Rightarrow>
                  if ret \<noteq> - 1 then Inr (push_bit index_shift i OR ret, bits)
                  else bitset_next_loop bits face_length (i + 1))))"

section \<open>The set a buffer stands for, and its iteration\<close>

text \<open>
  The data model of the specification (section 3): index \<open>i\<close> is a member when bit
  \<open>i mod 64\<close> of limb \<open>i div 64\<close> is 1.
\<close>

definition bit_at :: "limb list \<Rightarrow> nat \<Rightarrow> bool" where
  "bit_at bits i = bit (bits ! (i div 64)) (i mod 64)"

text \<open>
  Modelled from the spec: the loop over the members is the caller's and is not part of
  the sources. The specification (section 8, scan ordering) describes it: call
  \<open>bitset_next\<close>, stop at the sentinel, otherwise keep the result and call again with
  the start index \<open>result + 1\<close>. A run that never reaches the sentinel has the value
  \<open>None\<close>; a fault of \<open>bitset_next\<close> ends the run with that fault.
\<close>

partial_function (option) bitset_iterate ::
    "limb list \<Rightarrow> size_t \<Rightarrow> size_t \<Rightarrow> (fault + size_t list) option" where
  "bitset_iterate bits face_length n =
     (case bitset_next bits face_length n of
        Inl e \<Rightarrow> Some (Inl e)
      | Inr (r, bits') \<Rightarrow>
          if r = - 1 then Some (Inr [])
          else Option.bind (bitset_iterate bits' face_length (r + 1))
                 (\<lambda>rest. Some (map_sum id ((#) r) rest)))"

declare bitset_iterate.simps [code]

section \<open>Auxiliary facts\<close>

subsection \<open>Index arithmetic and limb patterns\<close>

lemma unat_mod_LIMB_BITS: "unat (n mod LIMB_BITS) = unat n mod 64"
  by (simp add: LIMB_BITS_def unat_mod)

lemma unat_limb_index: "unat (drop_bit index_shift n) = unat n div 64" for n :: size_t
  by (simp add: index_shift_def drop_bit_eq_div unat_div)

lemma limb_one_set_bit_exp: "limb_one_set_bit n = 2 ^ (unat n mod 64)"
  by (simp add: limb_one_set_bit_def unat_mod_LIMB_BITS)

lemma bit_limb_one_set_bit: "bit (limb_one_set_bit n) k \<longleftrightarrow> k = unat n mod 64"
  by (auto simp: limb_one_set_bit_exp bit_exp_iff)

lemma limb_one_set_bit_nonzero: "limb_one_set_bit n \<noteq> 0"
  using bit_limb_one_set_bit [of n "unat n mod 64"] by auto

lemma limb_one_zero_bit_zero: "limb_one_zero_bit n = 0"
  using limb_one_set_bit_nonzero [of n]
  by (simp add: limb_one_zero_bit_def limb_one_set_bit_def)

lemma limb_lower_bits_down_mask: "limb_lower_bits_down n = mask (unat n mod 64)"
  by (simp add: limb_lower_bits_down_def unat_mod_LIMB_BITS mask_eq_exp_minus_1)

lemma bit_above_start:
  "bit (w AND NOT (limb_lower_bits_down n)) k \<longleftrightarrow> bit w k \<and> unat n mod 64 \<le> k" for w :: limb
  by (auto simp: limb_lower_bits_down_mask bit_and_iff bit_not_iff bit_mask_iff dest: bit_imp_le_length)

subsection \<open>The mutators on a valid index\<close>

lemma load_valid: "unat n < 64 * length bits \<Longrightarrow> load bits (drop_bit index_shift n) = Inr (bits ! (unat n div 64))"
  by (simp add: load_def unat_limb_index less_mult_imp_div_less mult.commute)

lemma store_valid: "unat n < 64 * length bits \<Longrightarrow> store bits (drop_bit index_shift n) v = Inr (bits[unat n div 64 := v])"
  by (simp add: store_def unat_limb_index less_mult_imp_div_less mult.commute)

lemma bitset_add_valid:
  "unat n < 64 * length bits \<Longrightarrow>
   bitset_add bits n = Inr (bits[unat n div 64 := bits ! (unat n div 64) OR limb_one_set_bit n])"
  by (simp add: bitset_add_def load_valid store_valid)

lemma bitset_discard_valid:
  "unat n < 64 * length bits \<Longrightarrow>
   bitset_discard bits n = Inr (bits[unat n div 64 := bits ! (unat n div 64) AND limb_one_zero_bit n])"
  by (simp add: bitset_discard_def load_valid store_valid)

lemma bitset_in_valid:
  "unat n < 64 * length bits \<Longrightarrow>
   bitset_in bits n = Inr (ucast (bits ! (unat n div 64) AND limb_one_set_bit n), bits)"
  by (simp add: bitset_in_def load_valid)

lemma bitset_discard_zeroes_limb:
  "unat n < 64 * length bits \<Longrightarrow> bitset_discard bits n = Inr (bits[unat n div 64 := 0])"
  by (simp add: bitset_discard_valid limb_one_zero_bit_zero)

lemma bitset_in_high_offset:
  assumes "unat n < 64 * length bits" and "32 \<le> unat n mod 64"
  shows "bitset_in bits n = Inr (0, bits)"
proof -
  have "\<not> bit (ucast (w AND limb_one_set_bit n) :: c_int) k" for w :: limb and k
    using assms(2) by (auto simp: bit_ucast_iff bit_and_iff bit_limb_one_set_bit dest: bit_imp_le_length)
  then have "(ucast (w AND limb_one_set_bit n) :: c_int) = 0" for w :: limb
    by (simp add: bit_eq_iff)
  with assms(1) show ?thesis
    by (simp add: bitset_in_valid)
qed

lemma bitset_in_low_offset:
  assumes "unat n < 64 * length bits" and "unat n mod 64 < 32"
  shows "\<exists>v. bitset_in bits n = Inr (v, bits) \<and> (truthy v \<longleftrightarrow> bit_at bits (unat n))"
proof -
  let ?w = "bits ! (unat n div 64)"
  let ?v = "ucast (?w AND limb_one_set_bit n) :: c_int"
  have bits_v: "bit ?v k \<longleftrightarrow> k = unat n mod 64 \<and> bit ?w k" for k
    using assms(2) by (auto simp: bit_ucast_iff bit_and_iff bit_limb_one_set_bit)
  have "?v \<noteq> 0 \<longleftrightarrow> bit ?w (unat n mod 64)"
  proof
    assume "?v \<noteq> 0"
    then obtain k where "bit ?v k"
      by (auto simp: bit_eq_iff)
    then show "bit ?w (unat n mod 64)"
      by (auto simp: bits_v)
  next
    assume "bit ?w (unat n mod 64)"
    then have "bit ?v (unat n mod 64)"
      by (simp add: bits_v)
    then show "?v \<noteq> 0"
      by auto
  qed
  with assms(1) show ?thesis
    by (simp add: bitset_in_valid truthy_def bit_at_def)
qed

subsection \<open>The first hit of a predicate in an interval\<close>

lemma find_upt_None: "find P [a..<b] = None \<longleftrightarrow> (\<forall>j. a \<le> j \<and> j < b \<longrightarrow> \<not> P j)"
  by (auto simp: find_None_iff)

lemma find_upt_Some:
  "find P [a..<b] = Some k \<longleftrightarrow> a \<le> k \<and> k < b \<and> P k \<and> (\<forall>j. a \<le> j \<and> j < k \<longrightarrow> \<not> P j)"
proof (induction "b - a" arbitrary: a)
  case 0
  then show ?case by auto
next
  case (Suc d)
  then have ab: "a < b" and d: "d = b - Suc a" by linarith+
  from ab have unfold: "[a..<b] = a # [Suc a..<b]"
    by (simp add: upt_conv_Cons)
  show ?case
  proof (cases "P a")
    case True
    have "k = a" if "a \<le> k" "\<forall>j. a \<le> j \<and> j < k \<longrightarrow> \<not> P j"
      using that True by (metis le_neq_implies_less order_refl)
    with True ab show ?thesis
      by (auto simp: unfold)
  next
    case False
    have "(\<forall>j. a \<le> j \<and> j < k \<longrightarrow> \<not> P j) \<longleftrightarrow> (\<forall>j. Suc a \<le> j \<and> j < k \<longrightarrow> \<not> P j)"
      using False by (metis Suc_leI le_neq_implies_less Suc_leD)
    moreover have "a \<le> k \<and> P k \<longleftrightarrow> Suc a \<le> k \<and> P k"
      using False by (metis Suc_leI le_neq_implies_less Suc_leD)
    ultimately show ?thesis
      using False Suc.hyps(1) [OF d] by (auto simp: unfold)
  qed
qed

lemma filter_upt_None:
  "find P [a..<b] = None \<Longrightarrow> filter P [a..<b] = []"
  by (auto simp: find_None_iff filter_empty_conv)

lemma filter_upt_Some:
  assumes "find P [a..<b] = Some k"
  shows "filter P [a..<b] = k # filter P [Suc k..<b]"
proof -
  from assms have k: "a \<le> k" "k < b" "P k" and below: "\<forall>j. a \<le> j \<and> j < k \<longrightarrow> \<not> P j"
    by (simp_all add: find_upt_Some)
  from k have "[a..<b] = [a..<k] @ k # [Suc k..<b]"
    by (metis le_add_diff_inverse less_imp_le_nat upt_add_eq_append upt_conv_Cons)
  moreover from below have "filter P [a..<k] = []"
    by (auto simp: filter_empty_conv)
  ultimately show ?thesis
    using k by simp
qed

lemma find_upt_skip:
  assumes "a \<le> b" and "\<forall>j. a \<le> j \<and> j < b \<longrightarrow> \<not> P j"
  shows "find P [a..<c] = find P [b..<c]"
proof (cases "find P [b..<c]")
  case None
  then have "\<forall>j. b \<le> j \<and> j < c \<longrightarrow> \<not> P j"
    by (simp add: find_upt_None)
  with assms have "\<forall>j. a \<le> j \<and> j < c \<longrightarrow> \<not> P j"
    by (metis not_le_imp_less)
  then have "find P [a..<c] = None"
    by (simp add: find_upt_None)
  with None show ?thesis
    by simp
next
  case (Some k)
  then have k: "b \<le> k" "k < c" "P k" and below: "\<forall>j. b \<le> j \<and> j < k \<longrightarrow> \<not> P j"
    by (simp_all add: find_upt_Some)
  from assms below have "\<forall>j. a \<le> j \<and> j < k \<longrightarrow> \<not> P j"
    by (metis not_le_imp_less)
  with k assms(1) have "find P [a..<c] = Some k"
    by (simp add: find_upt_Some)
  then show ?thesis
    using Some by simp
qed

subsection \<open>Scanning one limb\<close>

lemma limb_zero_iff: "l = 0 \<longleftrightarrow> find (bit l) [0..<64] = None" for l :: limb
proof
  assume "l = 0"
  then show "find (bit l) [0..<64] = None"
    by (simp add: find_None_iff)
next
  assume "find (bit l) [0..<64] = None"
  then have "\<not> bit l j" for j
    using bit_imp_le_length [of l j] by (auto simp: find_upt_None)
  then show "l = 0"
    by (simp add: bit_eq_iff)
qed

lemma mpn_scan1_found:
  "find (bit l) [0..<64] = Some k \<Longrightarrow> mpn_scan1 l 0 = Inr (of_nat k)"
  by (simp add: mpn_scan1_def)

lemma mpn_scan1_least:
  assumes "l \<noteq> 0"
  shows "\<exists>k<64. mpn_scan1 l 0 = Inr (of_nat k) \<and> bit l k \<and> (\<forall>j<k. \<not> bit l j)"
proof -
  from assms obtain k where found: "find (bit l) [0..<64] = Some k"
    by (auto simp: limb_zero_iff)
  then have "k < 64" "bit l k" "\<forall>j<k. \<not> bit l j"
    by (simp_all add: find_upt_Some)
  with mpn_scan1_found [OF found] show ?thesis
    by blast
qed

lemma bitset_first_in_limb_find:
  "bitset_first_in_limb l = Inr (case find (bit l) [0..<64] of None \<Rightarrow> - 1 | Some k \<Rightarrow> of_nat k)"
  by (cases "find (bit l) [0..<64]")
     (simp_all add: bitset_first_in_limb_def mpn_scan1_def limb_zero_iff)

lemma index_not_sentinel:
  assumes "k < 2 ^ 64 - 1"
  shows "(of_nat k :: size_t) \<noteq> - 1"
proof
  assume "(of_nat k :: size_t) = - 1"
  then have "unat (of_nat k :: size_t) = unat (- 1 :: size_t)"
    by simp
  moreover from assms have "unat (of_nat k :: size_t) = k"
    by (simp add: unat_of_nat)
  moreover have "unat (- 1 :: size_t) = 2 ^ 64 - 1"
    by (simp add: unsigned_minus_1_eq_mask mask_eq_exp_minus_1)
  ultimately show False
    using assms by simp
qed

lemma limb_base_or:
  assumes "k < 64"
  shows "push_bit index_shift i OR of_nat k = (of_nat (64 * unat i + k) :: size_t)"
proof -
  have "\<not> bit (push_bit 6 i) n \<or> \<not> bit (of_nat k :: size_t) n" for n
  proof (cases "n < 6")
    case True
    then show ?thesis by (simp add: bit_push_bit_iff)
  next
    case False
    then have "k < 2 ^ n"
      using assms power_increasing [of 6 n "2 :: nat"] by simp
    then have "\<not> bit k n"
      by (simp add: bit_iff_odd)
    then show ?thesis
      by (simp add: bit_of_nat_iff)
  qed
  then have "push_bit 6 i OR of_nat k = push_bit 6 i + (of_nat k :: size_t)"
    by (simp add: disjunctive_add)
  then show ?thesis
    by (simp add: index_shift_def push_bit_eq_mult mult.commute)
qed

lemma masked_limb_find:
  "find (bit (w AND NOT (limb_lower_bits_down n))) [0..<64] = find (bit w) [unat n mod 64..<64]"
  for w :: limb
proof -
  let ?l = "w AND NOT (limb_lower_bits_down n)"
  have "find (bit ?l) [0..<64] = find (bit ?l) [unat n mod 64..<64]"
    by (rule find_upt_skip) (simp_all add: bit_above_start)
  also have "\<dots> = find (bit w) [unat n mod 64..<64]"
    by (rule find_cong) (simp_all add: bit_above_start)
  finally show ?thesis .
qed

subsection \<open>Scanning the buffer\<close>

lemma bit_at_limb: "k < 64 \<Longrightarrow> bit_at bits (64 * i + k) = bit (bits ! i) k"
  by (simp add: bit_at_def)

lemma limb_find_in_buffer:
  assumes found: "find (bit (bits ! i)) [m..<64] = Some k" and i: "i < L"
  shows "find (bit_at bits) [64 * i + m..<64 * L] = Some (64 * i + k)"
proof -
  from found have k: "m \<le> k" "k < 64" "bit (bits ! i) k"
    and below: "\<forall>j. m \<le> j \<and> j < k \<longrightarrow> \<not> bit (bits ! i) j"
    by (simp_all add: find_upt_Some)
  have "\<not> bit_at bits j" if j: "64 * i + m \<le> j" "j < 64 * i + k" for j
  proof -
    from j k have "j = 64 * i + (j - 64 * i)" and "j - 64 * i < k" and "m \<le> j - 64 * i"
      by linarith+
    with below k show ?thesis
      by (metis bit_at_limb less_trans)
  qed
  moreover from i k have "64 * i + k < 64 * L"
    by linarith
  ultimately show ?thesis
    using k by (simp add: find_upt_Some bit_at_limb)
qed

lemma limb_skip_in_buffer:
  assumes none: "find (bit (bits ! i)) [m..<64] = None" and m: "m \<le> 64"
  shows "find (bit_at bits) [64 * i + m..<c] = find (bit_at bits) [64 * Suc i..<c]"
proof (rule find_upt_skip)
  show "64 * i + m \<le> 64 * Suc i"
    using m by simp
  show "\<forall>j. 64 * i + m \<le> j \<and> j < 64 * Suc i \<longrightarrow> \<not> bit_at bits j"
  proof (intro allI impI)
    fix j
    assume "64 * i + m \<le> j \<and> j < 64 * Suc i"
    then have j: "64 * i + m \<le> j" "j < 64 * i + 64"
      by simp_all
    then have "j = 64 * i + (j - 64 * i)" and "j - 64 * i < 64" and "m \<le> j - 64 * i"
      by linarith+
    with none show "\<not> bit_at bits j"
      by (metis bit_at_limb find_upt_None)
  qed
qed

lemma bitset_next_loop_find:
  assumes "unat face_length \<le> length bits" and "unat i \<le> unat face_length"
  shows "bitset_next_loop bits face_length i =
           Inr (case find (bit_at bits) [64 * unat i..<64 * unat face_length] of
                  None \<Rightarrow> - 1 | Some k \<Rightarrow> of_nat k, bits)"
  using assms
proof (induction bits face_length i rule: bitset_next_loop.induct)
  case (1 bits face_length i)
  show ?case
  proof (cases "i < face_length")
    case False
    with "1.prems" have "unat i = unat face_length"
      by (simp add: word_less_nat_alt)
    with False show ?thesis
      by (simp add: bitset_next_loop.simps [of bits face_length i])
  next
    case True
    then have below: "unat i < unat face_length"
      by (simp add: word_less_nat_alt)
    have "unat face_length < 2 ^ 64"
      using unsigned_less [of face_length] by simp
    with below have "unat i + 1 < 2 ^ 64"
      by linarith
    then have succ: "unat (i + 1) = Suc (unat i)"
      by (simp add: unat_word_ariths)
    from below "1.prems" have ld: "load bits i = Inr (bits ! unat i)"
      by (simp add: load_def)
    show ?thesis
    proof (cases "find (bit (bits ! unat i)) [0..<64]")
      case None
      then have zero: "bits ! unat i = 0"
        by (simp add: limb_zero_iff)
      have "bitset_next_loop bits face_length (i + 1) =
              Inr (case find (bit_at bits) [64 * unat (i + 1)..<64 * unat face_length] of
                     None \<Rightarrow> - 1 | Some k \<Rightarrow> of_nat k, bits)"
        using True ld zero "1.prems" below succ by (intro "1.IH") simp_all
      moreover have "find (bit_at bits) [64 * unat i..<64 * unat face_length] =
                     find (bit_at bits) [64 * Suc (unat i)..<64 * unat face_length]"
        using limb_skip_in_buffer [OF None, of "64 * unat face_length"] by simp
      ultimately show ?thesis
        using True ld zero succ by (simp add: bitset_next_loop.simps [of bits face_length i])
    next
      case (Some k)
      then have nz: "bits ! unat i \<noteq> 0"
        by (simp add: limb_zero_iff)
      from Some have "k < 64"
        by (simp add: find_upt_Some)
      moreover have "find (bit_at bits) [64 * unat i..<64 * unat face_length] = Some (64 * unat i + k)"
        using limb_find_in_buffer [OF Some below] by simp
      ultimately show ?thesis
        using True ld nz Some
        by (simp add: bitset_next_loop.simps [of bits face_length i]
              bitset_first_in_limb_nonzero_def mpn_scan1_found limb_base_or)
    qed
  qed
qed

lemma unat_capacity:
  assumes "64 * unat face_length < 2 ^ 64"
  shows "unat (face_length * LIMB_BITS) = 64 * unat face_length"
  using assms by (simp add: LIMB_BITS_def unat_word_ariths mult.commute)

lemma bitset_next_find:
  assumes len: "unat face_length \<le> length bits" and cap: "64 * unat face_length < 2 ^ 64"
  shows "bitset_next bits face_length n =
           Inr (case find (bit_at bits) [unat n..<64 * unat face_length] of
                  None \<Rightarrow> - 1 | Some k \<Rightarrow> of_nat k, bits)"
proof (cases "n \<ge> face_length * LIMB_BITS")
  case True
  then have "64 * unat face_length \<le> unat n"
    using unat_capacity [OF cap] by (simp add: word_le_nat_alt)
  with True show ?thesis
    by (simp add: bitset_next_def)
next
  case False
  then have n: "unat n < 64 * unat face_length"
    using unat_capacity [OF cap] by (simp add: word_le_nat_alt)
  let ?i = "drop_bit index_shift n"
  let ?m = "unat n mod 64"
  let ?w = "bits ! (unat n div 64)"
  have split: "64 * (unat n div 64) + ?m = unat n"
    by simp
  from n have i: "unat n div 64 < unat face_length"
    by (simp add: less_mult_imp_div_less mult.commute)
  with len have ld: "load bits ?i = Inr ?w"
    by (simp add: load_def unat_limb_index)
  show ?thesis
  proof (cases "find (bit ?w) [?m..<64]")
    case None
    have "unat face_length < 2 ^ 64"
      using unsigned_less [of face_length] by simp
    with i have "unat ?i + 1 < 2 ^ 64"
      by (simp add: unat_limb_index)
    then have succ: "unat (?i + 1) = Suc (unat n div 64)"
      by (simp add: unat_word_ariths unat_limb_index)
    with i len have "bitset_next_loop bits face_length (?i + 1) =
        Inr (case find (bit_at bits) [64 * Suc (unat n div 64)..<64 * unat face_length] of
               None \<Rightarrow> - 1 | Some k \<Rightarrow> of_nat k, bits)"
      by (simp add: bitset_next_loop_find)
    moreover have "find (bit_at bits) [unat n..<64 * unat face_length] =
                   find (bit_at bits) [64 * Suc (unat n div 64)..<64 * unat face_length]"
      using limb_skip_in_buffer [OF None, of "64 * unat face_length"] split by simp
    ultimately show ?thesis
      using False ld None
      by (simp add: bitset_next_def bitset_first_in_limb_find masked_limb_find)
  next
    case (Some k)
    then have k: "k < 64"
      by (simp add: find_upt_Some)
    then have "(of_nat k :: size_t) \<noteq> - 1"
      by (intro index_not_sentinel) simp
    moreover have "find (bit_at bits) [unat n..<64 * unat face_length] = Some (64 * (unat n div 64) + k)"
      using limb_find_in_buffer [OF Some i] split by simp
    ultimately show ?thesis
      using False ld Some k
      by (simp add: bitset_next_def bitset_first_in_limb_find masked_limb_find limb_base_or
            unat_limb_index)
  qed
qed

lemma bitset_iterate_filter:
  assumes len: "unat face_length \<le> length bits" and cap: "64 * unat face_length < 2 ^ 64"
    and start: "k \<le> 64 * unat face_length"
  shows "bitset_iterate bits face_length (of_nat k) =
           Some (Inr (map of_nat (filter (bit_at bits) [k..<64 * unat face_length])))"
  using start
proof (induction "64 * unat face_length - k" arbitrary: k rule: less_induct)
  case less
  let ?N = "64 * unat face_length"
  from less.prems cap have k: "unat (of_nat k :: size_t) = k"
    by (simp add: unat_of_nat)
  note next_eq = bitset_next_find [OF len cap, of "of_nat k", unfolded k]
  show ?case
  proof (cases "find (bit_at bits) [k..<?N]")
    case None
    then show ?thesis
      using next_eq by (subst bitset_iterate.simps) (simp add: filter_upt_None)
  next
    case (Some j)
    then have j: "k \<le> j" "j < ?N"
      by (simp_all add: find_upt_Some)
    with cap have "j < 2 ^ 64 - 1"
      by linarith
    then have found: "(of_nat j :: size_t) \<noteq> - 1"
      by (rule index_not_sentinel)
    from j have "?N - Suc j < ?N - k" and "Suc j \<le> ?N"
      by linarith+
    then have "bitset_iterate bits face_length (of_nat (Suc j)) =
                 Some (Inr (map of_nat (filter (bit_at bits) [Suc j..<?N])))"
      by (rule less.hyps)
    then have "bitset_iterate bits face_length (of_nat j + 1) =
                 Some (Inr (map of_nat (filter (bit_at bits) [Suc j..<?N])))"
      by (simp add: add.commute)
    then show ?thesis
      using next_eq Some found
      by (subst bitset_iterate.simps) (simp add: filter_upt_Some [OF Some])
  qed
qed

lemma sorted_members:
  assumes "N < 2 ^ 64"
  shows "sorted_wrt (<) (map of_nat (filter P [0..<N]) :: size_t list)"
    and "map unat (map of_nat (filter P [0..<N]) :: size_t list) = filter P [0..<N]"
proof -
  have inj: "unat (of_nat i :: size_t) = i" if "i \<in> set (filter P [0..<N])" for i
    using that assms by (simp add: unat_of_nat)
  then show eq: "map unat (map of_nat (filter P [0..<N]) :: size_t list) = filter P [0..<N]"
    by (auto intro!: map_idI)
  have "sorted_wrt (<) (filter P [0..<N])"
    by (simp add: sorted_wrt_filter strict_sorted_iff)
  then have "sorted_wrt (<) (map unat (map of_nat (filter P [0..<N]) :: size_t list))"
    by (simp only: eq)
  then show "sorted_wrt (<) (map of_nat (filter P [0..<N]) :: size_t list)"
    by (simp add: sorted_wrt_map word_less_nat_alt del: map_map)
qed

lemma bitset_next_loop_frame:
  "bitset_next_loop bits face_length i = Inr (r, b) \<Longrightarrow> b = bits"
proof (induction bits face_length i rule: bitset_next_loop.induct)
  case (1 bits face_length i)
  from "1.prems" show ?case
    by (subst (asm) bitset_next_loop.simps)
       (auto split: if_splits sum.splits dest: "1.IH")
qed

section \<open>The claims\<close>

subsection \<open>Forward scan\<close>

text \<open>
  Claim C1. Let the buffer hold at least \<open>face_length\<close> limbs and let the capacity
  \<open>64 * face_length\<close> be representable in \<^verbatim>\<open>size_t\<close> (the sentinel is then no valid
  index). For every start index \<open>n\<close>, \<open>bitset_next\<close> returns without a fault and
  leaves the buffer as it is; when a member \<open>i \<ge> n\<close> exists below the capacity, the
  result is the smallest such member and differs from the sentinel, otherwise the result
  is the sentinel. A start exactly at the capacity gives the sentinel. The iteration
  from 0 that restarts at \<open>result + 1\<close> terminates, and its results are strictly
  increasing and are exactly the members below the capacity, each once.
\<close>

theorem bitset_next_scan_order:
  assumes "unat face_length \<le> length bits" and "64 * unat face_length < 2 ^ 64"
  shows "(\<exists>r. bitset_next bits face_length n = Inr (r, bits) \<and>
            (if \<exists>i. unat n \<le> i \<and> i < 64 * unat face_length \<and> bit_at bits i
             then r \<noteq> sentinel \<and> unat n \<le> unat r \<and> unat r < 64 * unat face_length \<and>
                  bit_at bits (unat r) \<and> (\<forall>j. unat n \<le> j \<and> j < unat r \<longrightarrow> \<not> bit_at bits j)
             else r = sentinel)) \<and>
         bitset_next bits face_length (face_length * LIMB_BITS) = Inr (sentinel, bits) \<and>
         (\<exists>rs. bitset_iterate bits face_length 0 = Some (Inr rs) \<and>
            sorted_wrt (<) rs \<and>
            map unat rs = filter (bit_at bits) [0..<64 * unat face_length])"
proof (intro conjI)
  let ?N = "64 * unat face_length"
  note next_eq = bitset_next_find [OF assms]
  show "\<exists>r. bitset_next bits face_length n = Inr (r, bits) \<and>
            (if \<exists>i. unat n \<le> i \<and> i < ?N \<and> bit_at bits i
             then r \<noteq> sentinel \<and> unat n \<le> unat r \<and> unat r < ?N \<and>
                  bit_at bits (unat r) \<and> (\<forall>j. unat n \<le> j \<and> j < unat r \<longrightarrow> \<not> bit_at bits j)
             else r = sentinel)"
  proof (cases "find (bit_at bits) [unat n..<?N]")
    case None
    then have "\<not> (\<exists>i. unat n \<le> i \<and> i < ?N \<and> bit_at bits i)"
      by (simp add: find_upt_None)
    with None show ?thesis
      by (simp add: next_eq [of n] sentinel_def)
  next
    case (Some k)
    then have k: "unat n \<le> k" "k < ?N" "bit_at bits k"
      and below: "\<forall>j. unat n \<le> j \<and> j < k \<longrightarrow> \<not> bit_at bits j"
      by (simp_all add: find_upt_Some)
    from k assms(2) have "k < 2 ^ 64 - 1"
      by linarith
    then have "(of_nat k :: size_t) \<noteq> - 1"
      by (rule index_not_sentinel)
    moreover from k assms(2) have "unat (of_nat k :: size_t) = k"
      by (simp add: unat_of_nat)
    moreover from k have "\<exists>i. unat n \<le> i \<and> i < ?N \<and> bit_at bits i"
      by blast
    ultimately show ?thesis
      using Some k below by (simp add: next_eq [of n] sentinel_def)
  qed
  have "unat (face_length * LIMB_BITS) = ?N"
    by (rule unat_capacity [OF assms(2)])
  then show "bitset_next bits face_length (face_length * LIMB_BITS) = Inr (sentinel, bits)"
    by (simp add: next_eq [of "face_length * LIMB_BITS"] sentinel_def)
  have "bitset_iterate bits face_length 0 =
          Some (Inr (map of_nat (filter (bit_at bits) [0..<?N])))"
    using bitset_iterate_filter [OF assms, of 0] by simp
  with sorted_members [OF assms(2), of "bit_at bits"]
  show "\<exists>rs. bitset_iterate bits face_length 0 = Some (Inr rs) \<and>
            sorted_wrt (<) rs \<and> map unat rs = filter (bit_at bits) [0..<?N]"
    by simp
qed

theorem bitset_next_scan_order_witness:
  "unat (2 :: size_t) \<le> length [8, 0x8000000000000040 :: limb] \<and>
   64 * unat (2 :: size_t) < 2 ^ 64 \<and>
   bit_at [8, 0x8000000000000040] 70 \<and>
   bitset_next [8, 0x8000000000000040] 2 4 = Inr (70, [8, 0x8000000000000040]) \<and>
   bitset_iterate [8, 0x8000000000000040] 2 0 = Some (Inr [3, 70, 127])"
proof -
  have len: "unat (2 :: size_t) \<le> length [8, 0x8000000000000040 :: limb]"
    by simp
  have cap: "64 * unat (2 :: size_t) < 2 ^ 64"
    by simp
  have "bit_at [8, 0x8000000000000040] 70"
    by code_simp
  moreover have "bitset_next [8, 0x8000000000000040] 2 4 = Inr (70, [8, 0x8000000000000040])"
    by code_simp
  moreover have "bitset_iterate [8, 0x8000000000000040] 2 0 = Some (Inr [3, 70, 127])"
    by code_simp
  ultimately show ?thesis
    using len cap bitset_next_scan_order [OF len cap, of 4] by blast
qed

subsection \<open>Discard\<close>

text \<open>
  Claim C2. The claim is that \<open>discard\<close> clears bit \<open>n\<close> and no other bit, and
  changes nothing when \<open>n\<close> was absent. The source computes the mask with the logical
  negation, so the mask is 0 and the whole limb is cleared: on the one-limb buffer with
  members 0 and 1, discarding 0 also removes 1; on the buffer with the only member 1,
  discarding the absent 0 removes 1.
\<close>

theorem bitset_discard_clears_limb:
  "bitset_discard [3] 0 = Inr [0] \<and> bitset_discard [2] 0 = Inr [0]"
  by code_simp

subsection \<open>Membership test\<close>

text \<open>
  Claim C3. The claim is that the test is true exactly for the members, and true right
  after \<open>add\<close>. The source returns the 64-bit conjunction as \<^verbatim>\<open>int\<close>; for a bit offset
  of 32 or more the low 32 bits are all 0. After adding 32 to the empty one-limb buffer,
  32 is a member and the test returns 0.
\<close>

theorem bitset_in_drops_high_offsets:
  "bitset_add [0] 32 = Inr [4294967296] \<and> bit_at [4294967296] 32 \<and>
   bitset_in [4294967296] 32 = Inr (0, [4294967296]) \<and> \<not> truthy 0"
  by code_simp

subsection \<open>The cleared-bit pattern\<close>

text \<open>
  Claim C4. The claim is that \<open>limb_one_zero_bit n\<close> is the complement of
  \<open>limb_one_set_bit n\<close>. The source returns 0 for every \<open>n\<close>, which is never that
  complement.
\<close>

theorem limb_one_zero_bit_is_zero:
  "limb_one_zero_bit n = 0 \<and> limb_one_zero_bit n \<noteq> NOT (limb_one_set_bit n)"
proof -
  define k :: nat where "k = (if unat n mod 64 = 0 then 1 else 0)"
  then have "k \<noteq> unat n mod 64" and "k < 64"
    by auto
  then have "bit (NOT (limb_one_set_bit n)) k"
    by (simp add: bit_not_iff bit_limb_one_set_bit)
  then have "NOT (limb_one_set_bit n) \<noteq> 0"
    by auto
  then show ?thesis
    by (simp add: limb_one_zero_bit_zero)
qed

subsection \<open>The concrete scenario\<close>

text \<open>
  Claim C5. On the two-limb buffer whose members are exactly 3, 70 and 127, the scan
  from 0 returns 3, from 4 returns 70, from 71 returns 127 and from 128 returns the
  sentinel.
\<close>

theorem bitset_next_scenario:
  "bitset_next [8, 0x8000000000000040] 2 0 = Inr (3, [8, 0x8000000000000040]) \<and>
   bitset_next [8, 0x8000000000000040] 2 4 = Inr (70, [8, 0x8000000000000040]) \<and>
   bitset_next [8, 0x8000000000000040] 2 71 = Inr (127, [8, 0x8000000000000040]) \<and>
   bitset_next [8, 0x8000000000000040] 2 128 = Inr (sentinel, [8, 0x8000000000000040]) \<and>
   filter (bit_at [8, 0x8000000000000040]) [0..<128] = [3, 70, 127]"
  by code_simp

subsection \<open>Idempotence\<close>

text \<open>
  Claim C6. For a valid index \<open>n\<close>, a second \<open>add\<close> of \<open>n\<close> leaves the buffer of
  the first \<open>add\<close> unchanged, and a second \<open>discard\<close> of \<open>n\<close> leaves the buffer of
  the first \<open>discard\<close> unchanged.
\<close>

theorem add_discard_idempotent:
  assumes "unat n < 64 * length bits"
  shows "(\<exists>a. bitset_add bits n = Inr a \<and> bitset_add a n = Inr a) \<and>
         (\<exists>d. bitset_discard bits n = Inr d \<and> bitset_discard d n = Inr d)"
proof -
  from assms have idx: "unat n div 64 < length bits"
    by (simp add: less_mult_imp_div_less mult.commute)
  let ?a = "bits[unat n div 64 := bits ! (unat n div 64) OR limb_one_set_bit n]"
  let ?d = "bits[unat n div 64 := bits ! (unat n div 64) AND limb_one_zero_bit n]"
  have "bitset_add ?a n = Inr ?a"
    using assms idx by (simp add: bitset_add_valid or.assoc)
  moreover have "bitset_discard ?d n = Inr ?d"
    using assms idx by (simp add: bitset_discard_valid and.assoc)
  ultimately show ?thesis
    using assms by (simp add: bitset_add_valid bitset_discard_valid)
qed

theorem add_discard_idempotent_witness:
  "unat (70 :: size_t) < 64 * length [1, 2, 3 :: limb] \<and>
   bitset_add [1, 2, 3] 70 = Inr [1, 66, 3] \<and> bitset_add [1, 66, 3] 70 = Inr [1, 66, 3] \<and>
   bitset_discard [1, 2, 3] 70 = Inr [1, 0, 3] \<and> bitset_discard [1, 0, 3] 70 = Inr [1, 0, 3]"
proof -
  have "bitset_add [1, 2, 3] 70 = Inr [1, 66, 3]" "bitset_add [1, 66, 3] 70 = Inr [1, 66, 3]"
    by code_simp+
  moreover have "bitset_discard [1, 2, 3] 70 = Inr [1, 0, 3]" "bitset_discard [1, 0, 3] 70 = Inr [1, 0, 3]"
    by code_simp+
  moreover have valid: "unat (70 :: size_t) < 64 * length [1, 2, 3 :: limb]"
    by simp
  ultimately show ?thesis
    using add_discard_idempotent [OF valid] by blast
qed

subsection \<open>Frame of the mutators\<close>

text \<open>
  Claim C7. For a valid index \<open>n\<close>, \<open>add\<close> and \<open>discard\<close> return a buffer of the
  same length in which every limb other than limb \<open>n div 64\<close> is as before.
\<close>

theorem add_discard_frame:
  assumes "unat n < 64 * length bits"
  shows "\<exists>a d. bitset_add bits n = Inr a \<and> bitset_discard bits n = Inr d \<and>
           length a = length bits \<and> length d = length bits \<and>
           (\<forall>j. j \<noteq> unat n div 64 \<longrightarrow> a ! j = bits ! j \<and> d ! j = bits ! j)"
  using assms by (simp add: bitset_add_valid bitset_discard_valid)

theorem add_discard_frame_witness:
  "unat (70 :: size_t) < 64 * length [1, 2, 3 :: limb] \<and>
   bitset_add [1, 2, 3] 70 = Inr [1, 66, 3] \<and> bitset_discard [1, 2, 3] 70 = Inr [1, 0, 3]"
proof -
  have "bitset_add [1, 2, 3] 70 = Inr [1, 66, 3]"
    by code_simp
  moreover have "bitset_discard [1, 2, 3] 70 = Inr [1, 0, 3]"
    by code_simp
  moreover have valid: "unat (70 :: size_t) < 64 * length [1, 2, 3 :: limb]"
    by simp
  ultimately show ?thesis
    using add_discard_frame [OF valid] by blast
qed

subsection \<open>First set bit of a limb\<close>

text \<open>
  Claim C8. \<open>bitset_first_in_limb\<close> returns the sentinel on the zero limb. On every
  non-zero limb the variant without the zero check returns the same result as the total
  variant: the index, below 64 and different from the sentinel, of the least-significant
  set bit.
\<close>

theorem first_in_limb_variants:
  "bitset_first_in_limb 0 = Inr sentinel \<and>
   (l \<noteq> 0 \<longrightarrow>
      bitset_first_in_limb_nonzero l = bitset_first_in_limb l \<and>
      (\<exists>k<64. bitset_first_in_limb l = Inr (of_nat k) \<and> of_nat k \<noteq> sentinel \<and>
         bit l k \<and> (\<forall>j<k. \<not> bit l j)))"
proof (intro conjI impI)
  show "bitset_first_in_limb 0 = Inr sentinel"
    by (simp add: bitset_first_in_limb_def sentinel_def)
next
  assume "l \<noteq> 0"
  then show "bitset_first_in_limb_nonzero l = bitset_first_in_limb l"
    by (simp add: bitset_first_in_limb_def bitset_first_in_limb_nonzero_def)
next
  assume nz: "l \<noteq> 0"
  then obtain k where k: "k < 64" "mpn_scan1 l 0 = Inr (of_nat k)" "bit l k" "\<forall>j<k. \<not> bit l j"
    using mpn_scan1_least by blast
  from k(1) have "(of_nat k :: size_t) \<noteq> - 1"
    by (intro index_not_sentinel) simp
  with k nz
  show "\<exists>k<64. bitset_first_in_limb l = Inr (of_nat k) \<and> of_nat k \<noteq> sentinel \<and>
          bit l k \<and> (\<forall>j<k. \<not> bit l j)"
    by (auto simp: bitset_first_in_limb_def sentinel_def)
qed

theorem first_in_limb_variants_witness:
  "(40 :: limb) \<noteq> 0 \<and> bitset_first_in_limb_nonzero 40 = Inr 3 \<and> bitset_first_in_limb 40 = Inr 3"
proof -
  have "bitset_first_in_limb 40 = Inr 3"
    by code_simp
  then show ?thesis
    using first_in_limb_variants [of 40] by simp
qed

subsection \<open>Frame of the read-only operations\<close>

text \<open>
  Claim C9. Whenever \<open>bitset_in\<close> or \<open>bitset_next\<close> returns, for any buffer, limb
  count and index, the buffer it leaves is the buffer it was given.
\<close>

theorem read_only_frame:
  "(\<forall>v b. bitset_in bits n = Inr (v, b) \<longrightarrow> b = bits) \<and>
   (\<forall>r b. bitset_next bits face_length n = Inr (r, b) \<longrightarrow> b = bits)"
  by (auto simp: bitset_in_def bitset_next_def Let_def
           split: if_splits sum.splits dest: bitset_next_loop_frame)

theorem read_only_frame_witness:
  "bitset_in [8] 3 = Inr (8, [8]) \<and> bitset_next [8] 1 3 = Inr (3, [8])"
proof -
  have "bitset_in [8] 3 = Inr (8, [8])"
    by code_simp
  moreover have "bitset_next [8] 1 3 = Inr (3, [8])"
    by code_simp
  ultimately show ?thesis
    using read_only_frame [of "[8]" 3 1] by simp
qed

subsection \<open>No limbs\<close>

text \<open>
  Claim C10. With a limb count of 0, \<open>bitset_next\<close> returns the sentinel for every
  start index and every buffer, the empty buffer included, on which any read would be the
  fault \<open>OutOfBounds\<close>: no limb is inspected.
\<close>

theorem bitset_next_no_limbs: "bitset_next bits 0 n = Inr (sentinel, bits)"
  by (simp add: bitset_next_def sentinel_def)

end
